theory Spec2Isabelle
  imports Complex_Main "HOL-Library.Signed_Division" "HOL-Library.Log_Nat" "HOL-Library.AList"
begin

section \<open>Errors\<close>

text \<open>
  Every \<^verbatim>\<open>throw\<close> of the sources, and every exception the JavaScript runtime raises
  on the paths modelled here, is a value of this type; a function that can throw returns
  \<open>error + 'a\<close> with \<open>Inl\<close> for the exception.
\<close>

datatype error =
    RangeError            \<comment> \<open>BigInt division by zero, BigInt of a fractional number\<close>
  | TypeError             \<comment> \<open>property read on null or undefined, BigInt of null or undefined\<close>
  | SyntaxError           \<comment> \<open>JSON.parse or BigInt on malformed text\<close>
  | NoInverse             \<comment> \<open>'Modular inverse does not exist'\<close>
  | NoSquareRoot          \<comment> \<open>'Square root does not exist in field'\<close>
  | NotImplemented        \<comment> \<open>'General case not implemented'\<close>
  | IndexOutOfBounds      \<comment> \<open>'Index out of bounds'\<close>
  | SignalNotFound        \<comment> \<open>'Signal ... not found', 'One or both signals not found'\<close>
  | OutOfRange            \<comment> \<open>'Signal ... is out of range'\<close>
  | MultiplicationMismatch \<comment> \<open>'Multiplication constraint failed'\<close>
  | CollaboratorError     \<comment> \<open>an external collaborator (packing, hashing, encryption) rejected its input\<close>

section \<open>Field arithmetic (utils/fieldMath)\<close>

text \<open>
  JavaScript \<^verbatim>\<open>bigint\<close> is an unbounded integer: \<open>int\<close>.  Its \<^verbatim>\<open>/\<close> truncates
  towards zero and its \<^verbatim>\<open>%\<close> takes the sign of the dividend: \<open>sdiv\<close> and \<open>smod\<close>.
  Both raise a RangeError on a zero divisor.
\<close>

definition FIELD_SIZE :: int where
  "FIELD_SIZE = 21888242871839275222246405745257275088548364400416034343698204186575808495617"

definition mod_m :: "int \<Rightarrow> int \<Rightarrow> error + int" where
  "mod_m a m =
     (if m = 0 then Inl RangeError
      else let result = a smod m in Inr (if result \<ge> 0 then result else result + m))"

definition addMod :: "int \<Rightarrow> int \<Rightarrow> int \<Rightarrow> error + int" where
  "addMod a b m =
     (case mod_m a FIELD_SIZE of Inl e \<Rightarrow> Inl e | Inr a' \<Rightarrow>
        (case mod_m b FIELD_SIZE of Inl e \<Rightarrow> Inl e | Inr b' \<Rightarrow> mod_m (a' + b') m))"

definition subMod :: "int \<Rightarrow> int \<Rightarrow> int \<Rightarrow> error + int" where
  "subMod a b m =
     (case mod_m a FIELD_SIZE of Inl e \<Rightarrow> Inl e | Inr a' \<Rightarrow>
        (case mod_m b FIELD_SIZE of Inl e \<Rightarrow> Inl e | Inr b' \<Rightarrow> mod_m (a' - b') m))"

definition mulMod :: "int \<Rightarrow> int \<Rightarrow> int \<Rightarrow> error + int" where
  "mulMod a b m =
     (case mod_m a FIELD_SIZE of Inl e \<Rightarrow> Inl e | Inr a' \<Rightarrow>
        (case mod_m b FIELD_SIZE of Inl e \<Rightarrow> Inl e | Inr b' \<Rightarrow> mod_m (a' * b') m))"

text \<open>The \<^verbatim>\<open>while (e > 0n)\<close> loop of \<^verbatim>\<open>powMod\<close>, on the triple (result, b, e).\<close>

function powMod_loop :: "int \<Rightarrow> int \<Rightarrow> int \<Rightarrow> int \<Rightarrow> error + int" where
  "powMod_loop result b e m =
     (if e > 0 then
        (case (if e smod 2 = 1 then mod_m (result * b) m else Inr result) of
           Inl err \<Rightarrow> Inl err
         | Inr result' \<Rightarrow>
            (case mod_m (b * b) m of
               Inl err \<Rightarrow> Inl err
             | Inr b' \<Rightarrow> powMod_loop result' b' (e sdiv 2) m))
      else Inr result)"
  by pat_completeness auto
termination
proof (relation "measure (\<lambda>(result, b, e, m). nat e)")
  show "wf (measure (\<lambda>(result, b, e, m). nat e))" by simp
next
  fix result b e m :: int and x y z
  assume "0 < e"
  then have "e sdiv 2 = e div 2"
    by (simp add: signed_divide_int_def sgn_if)
  with \<open>0 < e\<close> show "((x, z, e sdiv 2, m), (result, b, e, m)) \<in> measure (\<lambda>(result, b, e, m). nat e)"
    by simp
qed

declare powMod_loop.simps [simp del]

definition powMod :: "int \<Rightarrow> int \<Rightarrow> int \<Rightarrow> error + int" where
  "powMod base ex m =
     (if ex = 0 then Inr 1
      else if ex = 1 then mod_m base m
      else (case mod_m base m of Inl err \<Rightarrow> Inl err | Inr b \<Rightarrow> powMod_loop 1 b ex m))"

function extendedGCD :: "int \<Rightarrow> int \<Rightarrow> int \<times> int \<times> int" where
  "extendedGCD a b =
     (if b = 0 then (a, 1, 0)
      else (case extendedGCD b (a smod b) of
              (g, x1, y1) \<Rightarrow> (g, y1, x1 - (a sdiv b) * y1)))"
  by pat_completeness auto
termination
proof (relation "measure (\<lambda>(a, b). nat \<bar>b\<bar>)")
  show "wf (measure (\<lambda>(a, b). nat \<bar>b\<bar>))" by simp
next
  fix a b :: int
  assume "b \<noteq> 0"
  then have "\<bar>a smod b\<bar> < \<bar>b\<bar>"
    by (simp add: smod_int_alt_def abs_mult sgn_if)
  then show "((b, a smod b), (a, b)) \<in> measure (\<lambda>(a, b). nat \<bar>b\<bar>)"
    by simp
qed

declare extendedGCD.simps [simp del]

definition invMod :: "int \<Rightarrow> int \<Rightarrow> error + int" where
  "invMod a m =
     (case mod_m a m of Inl err \<Rightarrow> Inl err | Inr a' \<Rightarrow>
        (case extendedGCD a' m of
           (g, x, y) \<Rightarrow> if g \<noteq> 1 then Inl NoInverse else mod_m x m))"

definition divMod :: "int \<Rightarrow> int \<Rightarrow> int \<Rightarrow> error + int" where
  "divMod a b m = (case invMod b m of Inl err \<Rightarrow> Inl err | Inr i \<Rightarrow> mulMod a i m)"

definition isQuadraticResidue :: "int \<Rightarrow> int \<Rightarrow> error + bool" where
  "isQuadraticResidue a p =
     (if a = 0 then Inr True
      else let ex = (p - 1) sdiv 2 in
        (case powMod a ex p of Inl err \<Rightarrow> Inl err | Inr v \<Rightarrow> Inr (v = 1)))"

definition sqrtMod :: "int \<Rightarrow> int \<Rightarrow> error + int" where
  "sqrtMod a p =
     (case isQuadraticResidue a p of
        Inl err \<Rightarrow> Inl err
      | Inr qr \<Rightarrow>
          if \<not> qr then Inl NoSquareRoot
          else if p smod 4 = 3 then (let ex = (p + 1) sdiv 4 in powMod a ex p)
          else Inl NotImplemented)"

definition isInField :: "int \<Rightarrow> bool" where
  "isInField v \<longleftrightarrow> v \<ge> 0 \<and> v < FIELD_SIZE"

section \<open>The payment circuit (circuits/paymentCircuit)\<close>

text \<open>
  The signal store is a JavaScript \<^verbatim>\<open>Map\<close>: an association list in insertion order,
  where \<^verbatim>\<open>set\<close> overwrites the value of a key that is present and appends a new key
  (\<^const>\<open>AList.update\<close>).  The constraint log is the object of three parallel arrays
  \<^verbatim>\<open>{A, B, C}\<close>.
\<close>

record CircuitConstraints =
  cA :: "int list list"
  cB :: "int list list"
  cC :: "int list list"

record PaymentCircuit =
  signals :: "(string \<times> int) list"
  constraints :: CircuitConstraints

definition initializeCircuit :: "PaymentCircuit \<Rightarrow> PaymentCircuit" where
  "initializeCircuit c = c\<lparr>signals := AList.update ''one'' 1 (signals c)\<rparr>"

definition new_PaymentCircuit :: PaymentCircuit where
  "new_PaymentCircuit =
     initializeCircuit \<lparr>signals = [], constraints = \<lparr>cA = [], cB = [], cC = []\<rparr>\<rparr>"

definition setSignal :: "string \<Rightarrow> int \<Rightarrow> PaymentCircuit \<Rightarrow> PaymentCircuit" where
  "setSignal name v c = c\<lparr>signals := AList.update name v (signals c)\<rparr>"

definition getSignal :: "string \<Rightarrow> PaymentCircuit \<Rightarrow> int option" where
  "getSignal name c = map_of (signals c) name"

definition defineConstraint ::
  "int list \<Rightarrow> int list \<Rightarrow> int list \<Rightarrow> PaymentCircuit \<Rightarrow> PaymentCircuit" where
  "defineConstraint a b c' c =
     c\<lparr>constraints :=
         \<lparr>cA = cA (constraints c) @ [a],
          cB = cB (constraints c) @ [b],
          cC = cC (constraints c) @ [c']\<rparr>\<rparr>"

definition verifyRangeProof :: "int \<Rightarrow> int \<Rightarrow> int \<Rightarrow> bool" where
  "verifyRangeProof v lo hi \<longleftrightarrow> v \<ge> lo \<and> v \<le> hi"

definition addRangeConstraint ::
  "string \<Rightarrow> int \<Rightarrow> int \<Rightarrow> PaymentCircuit \<Rightarrow> error + PaymentCircuit" where
  "addRangeConstraint signal lo hi c =
     (case map_of (signals c) signal of
        None \<Rightarrow> Inl SignalNotFound
      | Some v \<Rightarrow>
          if \<not> verifyRangeProof v lo hi then Inl OutOfRange
          else Inr (defineConstraint [v] [1] [v] c))"

definition addEqualityConstraint ::
  "string \<Rightarrow> string \<Rightarrow> PaymentCircuit \<Rightarrow> error + PaymentCircuit" where
  "addEqualityConstraint signal1 signal2 c =
     (case (map_of (signals c) signal1, map_of (signals c) signal2) of
        (Some value1, Some value2) \<Rightarrow> Inr (defineConstraint [value1] [1] [value2] c)
      | _ \<Rightarrow> Inl SignalNotFound)"

definition addMultiplicationConstraint ::
  "string \<Rightarrow> string \<Rightarrow> string \<Rightarrow> PaymentCircuit \<Rightarrow> error + PaymentCircuit" where
  "addMultiplicationConstraint signal1 signal2 resultSignal c =
     (case (map_of (signals c) signal1, map_of (signals c) signal2,
            map_of (signals c) resultSignal) of
        (Some value1, Some value2, Some result) \<Rightarrow>
          if value1 * value2 \<noteq> result then Inl MultiplicationMismatch
          else Inr (defineConstraint [value1] [value2] [result] c)
      | _ \<Rightarrow> Inl SignalNotFound)"

text \<open>
  The loop of \<^verbatim>\<open>verifyCircuit\<close> runs over the indices of \<^verbatim>\<open>constraints.A\<close> and
  reads \<^verbatim>\<open>B[i]\<close> and \<^verbatim>\<open>C[i]\<close>; a read past the end gives \<^verbatim>\<open>undefined\<close>, whose
  \<^verbatim>\<open>reduce\<close> is a TypeError.  \<^verbatim>\<open>xs.reduce((acc, val) => acc + val, 0n)\<close> is a left fold.
\<close>

definition reduce_sum :: "int list \<Rightarrow> int" where
  "reduce_sum xs = foldl (\<lambda>acc val. acc + val) 0 xs"

function verifyCircuit_loop :: "CircuitConstraints \<Rightarrow> nat \<Rightarrow> error + bool" where
  "verifyCircuit_loop cs i =
     (if i < length (cA cs) then
        (if i < length (cB cs) \<and> i < length (cC cs) then
           (let sumA = reduce_sum (cA cs ! i);
                sumB = reduce_sum (cB cs ! i);
                sumC = reduce_sum (cC cs ! i)
            in if sumA * sumB \<noteq> sumC then Inr False else verifyCircuit_loop cs (i + 1))
         else Inl TypeError)
      else Inr True)"
  by pat_completeness auto
termination
  by (relation "measure (\<lambda>(cs, i). length (cA cs) - i)") auto

declare verifyCircuit_loop.simps [simp del]

text \<open>The \<^verbatim>\<open>try\<close>/\<^verbatim>\<open>catch\<close> of \<^verbatim>\<open>verifyCircuit\<close> turns every exception into false.\<close>

definition verifyCircuit :: "PaymentCircuit \<Rightarrow> bool" where
  "verifyCircuit c =
     (case verifyCircuit_loop (constraints c) 0 of Inl err \<Rightarrow> False | Inr ok \<Rightarrow> ok)"

definition generateWitness :: "PaymentCircuit \<Rightarrow> int list" where
  "generateWitness c = map snd (signals c)"

definition reset :: "PaymentCircuit \<Rightarrow> PaymentCircuit" where
  "reset c = initializeCircuit (c\<lparr>signals := [], constraints := \<lparr>cA = [], cB = [], cC = []\<rparr>\<rparr>)"

text \<open>
  The circuits a program can hold: the fields are private, so every circuit is built by the
  constructor and the public methods.
\<close>

inductive reachable :: "PaymentCircuit \<Rightarrow> bool" where
  r_new: "reachable new_PaymentCircuit"
| r_setSignal: "reachable c \<Longrightarrow> reachable (setSignal name v c)"
| r_defineConstraint: "reachable c \<Longrightarrow> reachable (defineConstraint a b c' c)"
| r_addRange: "reachable c \<Longrightarrow> addRangeConstraint s lo hi c = Inr d \<Longrightarrow> reachable d"
| r_addEquality: "reachable c \<Longrightarrow> addEqualityConstraint s1 s2 c = Inr d \<Longrightarrow> reachable d"
| r_addMultiplication:
    "reachable c \<Longrightarrow> addMultiplicationConstraint s1 s2 s3 c = Inr d \<Longrightarrow> reachable d"
| r_reset: "reachable c \<Longrightarrow> reachable (reset c)"

text \<open>The recorded constraint triples, in recording order.\<close>

definition recorded :: "PaymentCircuit \<Rightarrow> (int list \<times> int list \<times> int list) list" where
  "recorded c = zip (cA (constraints c)) (zip (cB (constraints c)) (cC (constraints c)))"

definition holds :: "int list \<times> int list \<times> int list \<Rightarrow> bool" where
  "holds t = (case t of (a, b, c) \<Rightarrow> sum_list a * sum_list b = sum_list c)"


text \<open>The three arrays of a constraint log have the same length.\<close>

definition aligned :: "CircuitConstraints \<Rightarrow> bool" where
  "aligned cs \<longleftrightarrow> length (cB cs) = length (cA cs) \<and> length (cC cs) = length (cA cs)"

text \<open>A circuit with a signal and two recorded constraints, the second one violated.\<close>

definition example_circuit :: PaymentCircuit where
  "example_circuit =
     defineConstraint [2, 1] [4] [5, 7]
       (defineConstraint [3] [1] [4] (setSignal ''x'' 3 new_PaymentCircuit))"

section \<open>The permutation hash (crypto/poseidon)\<close>

text \<open>
  Sequencing of computations that can throw, and the counted loop
  \<^verbatim>\<open>for (let i = 0; i < n; i++) body\<close> as \<open>forM [0..<n] body\<close> on the loop's state.
\<close>

definition bind_err :: "error + 'a \<Rightarrow> ('a \<Rightarrow> error + 'b) \<Rightarrow> error + 'b" where
  "bind_err x f = (case x of Inl e \<Rightarrow> Inl e | Inr v \<Rightarrow> f v)"

primrec forM :: "nat list \<Rightarrow> (nat \<Rightarrow> 's \<Rightarrow> error + 's) \<Rightarrow> 's \<Rightarrow> error + 's" where
  "forM [] body s = Inr s"
| "forM (i # rest) body s = bind_err (body i s) (forM rest body)"

text \<open>
  An array read whose value is used in BigInt arithmetic: past the end the value is
  \<^verbatim>\<open>undefined\<close> and the arithmetic throws a TypeError.
\<close>

definition read_at :: "'a list \<Rightarrow> nat \<Rightarrow> error + 'a" where
  "read_at xs i = (if i < length xs then Inr (xs ! i) else Inl TypeError)"

text \<open>
  \<^verbatim>\<open>mod(a)\<close> of poseidon.ts, which is only ever called with the default modulus; the
  remainder by the non-zero constant cannot throw.
\<close>

definition modP :: "int \<Rightarrow> int" where
  "modP a = (let result = a smod FIELD_SIZE in if result \<ge> 0 then result else result + FIELD_SIZE)"

definition pow5 :: "int \<Rightarrow> int" where
  "pow5 x = (let x2 = modP (x * x); x4 = modP (x2 * x2) in modP (x4 * x))"

record PoseidonHash =
  pC :: "int list"
  pM :: "int list list"
  pt :: nat
  nRoundsF :: nat
  nRoundsP :: nat

text \<open>
  The round constants are multiples of \<^verbatim>\<open>BigInt(0x30644e72e131a029b85045b68181585d)\<close>.  The
  argument is a Number literal, so it is the double nearest to the written integer,
  \<open>0x30644e72e131a0 * 2\<^sup>7\<^sup>2\<close>, before it becomes a BigInt.
\<close>

definition round_constant_unit :: int where
  "round_constant_unit = 64323764613183176272264358511859728384"

definition new_PoseidonHash :: PoseidonHash where
  "new_PoseidonHash =
     (let t = 6; nF = 8; nP = 57; totalRounds = nF + nP in
      \<lparr>pC = map (\<lambda>i. (int i + 1) * round_constant_unit) [0..<totalRounds * t],
       pM = map (\<lambda>i. map (\<lambda>j. int ((i + 1) * (j + 1))) [0..<t]) [0..<t],
       pt = t, nRoundsF = nF, nRoundsP = nP\<rparr>)"

definition ark :: "PoseidonHash \<Rightarrow> int list \<Rightarrow> nat \<Rightarrow> error + int list" where
  "ark ph state rnd =
     forM [0..<pt ph]
       (\<lambda>i newState.
          bind_err (read_at newState i) (\<lambda>s.
          bind_err (read_at (pC ph) (rnd * pt ph + i)) (\<lambda>c.
          Inr (newState[i := modP (s + c)]))))
       state"

definition sbox :: "PoseidonHash \<Rightarrow> int list \<Rightarrow> nat \<Rightarrow> bool \<Rightarrow> error + int list" where
  "sbox ph state rnd fullRound =
     (if fullRound then
        forM [0..<pt ph]
          (\<lambda>i newState. bind_err (read_at newState i) (\<lambda>s. Inr (newState[i := pow5 s])))
          state
      else bind_err (read_at state 0) (\<lambda>s. Inr (state[0 := pow5 s])))"

definition mix :: "PoseidonHash \<Rightarrow> int list \<Rightarrow> error + int list" where
  "mix ph state =
     forM [0..<pt ph]
       (\<lambda>i. forM [0..<pt ph]
          (\<lambda>j newState.
             bind_err (read_at newState i) (\<lambda>acc.
             bind_err (read_at (pM ph) i) (\<lambda>row.
             bind_err (read_at row j) (\<lambda>m.
             bind_err (read_at state j) (\<lambda>s.
             Inr (newState[i := modP (acc + modP (m * s))])))))))
       (replicate (pt ph) 0)"

text \<open>The first loop of \<^verbatim>\<open>hash\<close>: up to \<open>t - 1\<close> inputs go to \<open>state[1..]\<close>, reduced.\<close>

definition absorb :: "PoseidonHash \<Rightarrow> int list \<Rightarrow> error + int list" where
  "absorb ph inputs =
     forM [0..<min (length inputs) (pt ph - 1)]
       (\<lambda>i state. Inr (state[i + 1 := modP (inputs ! i)]))
       (replicate (pt ph) 0)"

definition round_step :: "PoseidonHash \<Rightarrow> nat \<Rightarrow> bool \<Rightarrow> int list \<Rightarrow> error + int list" where
  "round_step ph rnd fullRound state =
     bind_err (ark ph state rnd) (\<lambda>state.
     bind_err (sbox ph state rnd fullRound) (\<lambda>state.
     mix ph state))"

text \<open>\<^verbatim>\<open>this.nRoundsF / 2\<close> is a division of Numbers; it is exact for the even \<open>nRoundsF = 8\<close>.\<close>

definition hash :: "PoseidonHash \<Rightarrow> int list \<Rightarrow> error + int" where
  "hash ph inputs =
     (let halfRoundsF = nRoundsF ph div 2 in
      bind_err (absorb ph inputs) (\<lambda>state.
      bind_err (forM [0..<halfRoundsF] (\<lambda>r. round_step ph r True) state) (\<lambda>state.
      bind_err (forM [0..<nRoundsP ph]
                  (\<lambda>r. round_step ph (halfRoundsF + r) False) state) (\<lambda>state.
      bind_err (forM [0..<halfRoundsF]
                  (\<lambda>r. round_step ph (halfRoundsF + nRoundsP ph + r) True) state) (\<lambda>state.
      read_at state 0)))))"

text \<open>
  \<^verbatim>\<open>poseidonHash\<close> and the function returned by \<^verbatim>\<open>buildPoseidon\<close> call \<^verbatim>\<open>hash\<close> on the
  process-wide instance, which is built once by the constructor and never changed.
\<close>

definition poseidonHash :: "int list \<Rightarrow> error + int" where
  "poseidonHash inputs = hash new_PoseidonHash inputs"

text \<open>The \<open>i\<close>-th input, read as 0 when the list is shorter.\<close>

definition input_or_zero :: "int list \<Rightarrow> nat \<Rightarrow> int" where
  "input_or_zero xs i = (if i < length xs then xs ! i else 0)"

section \<open>The Merkle tree (utils/merkleTree)\<close>

text \<open>
  Leaves and node hashes are 32-byte values of a type \<open>'h\<close>.  The two collaborators of the
  tree are parameters of every function below: \<open>H l r\<close> stands for
  \<^verbatim>\<open>ethers.keccak256(ethers.solidityPacked(['bytes32', 'bytes32'], [l, r]))\<close> and \<open>Z\<close> for
  \<^verbatim>\<open>ethers.ZeroHash\<close>.  Nothing is assumed about them.

  The depth is a JavaScript number.  \<^verbatim>\<open>Math.log2(0)\<close> is \<^verbatim>\<open>-Infinity\<close>, which
  \<^verbatim>\<open>Math.ceil\<close> keeps and \<^verbatim>\<open>||\<close> takes for true; \<^verbatim>\<open>2 ** -Infinity\<close> is 0.  For an array
  length \<open>n \<ge> 1\<close> (below \<open>2\<^sup>3\<^sup>2\<close>) the double \<^verbatim>\<open>Math.log2(n)\<close> is exact at powers of two and
  lies strictly between the neighbouring integers elsewhere, so \<^verbatim>\<open>Math.ceil(Math.log2(n))\<close>
  is the integer \<open>\<lceil>log\<^sub>2 n\<rceil>\<close>, computed here by \<open>clog2\<close>.
\<close>

datatype depth = NegInfinity | Finite nat

fun clog2 :: "nat \<Rightarrow> nat" where
  "clog2 n = (if n \<le> 1 then 0 else Suc (clog2 ((n + 1) div 2)))"

declare clog2.simps [simp del]

definition Math_ceil_log2 :: "nat \<Rightarrow> depth" where
  "Math_ceil_log2 n = (if n = 0 then NegInfinity else Finite (clog2 n))"

text \<open>\<^verbatim>\<open>a || b\<close> on numbers: 0 is the only falsy depth (\<^verbatim>\<open>undefined\<close> is read as 0 below).\<close>

definition js_or :: "depth \<Rightarrow> depth \<Rightarrow> depth" where
  "js_or a b = (if a = Finite 0 then b else a)"

definition pow2 :: "depth \<Rightarrow> nat" where
  "pow2 d = (case d of NegInfinity \<Rightarrow> 0 | Finite k \<Rightarrow> 2 ^ k)"

record 'h MerkleTree =
  leaves :: "'h list"
  layers :: "'h list list"
  depth :: depth

text \<open>
  One pass of the \<^verbatim>\<open>for (let i = 0; i < currentLayer.length; i += 2)\<close> loop: adjacent
  entries are hashed in pairs, and a last entry without a right neighbour is hashed with
  itself.  The orchestrator's \<^verbatim>\<open>computeMerkleRoot\<close> and \<^verbatim>\<open>createMerkleProof\<close> contain the
  same loop.
\<close>

fun hash_pairs :: "('h \<Rightarrow> 'h \<Rightarrow> 'h) \<Rightarrow> 'h list \<Rightarrow> 'h list" where
  "hash_pairs H (left # right # rest) = H left right # hash_pairs H rest"
| "hash_pairs H [left] = [H left left]"
| "hash_pairs H [] = []"

text \<open>The \<^verbatim>\<open>while (currentLayer.length > 1)\<close> loop: the layers pushed after the leaf layer.\<close>

function upper_layers :: "('h \<Rightarrow> 'h \<Rightarrow> 'h) \<Rightarrow> 'h list \<Rightarrow> 'h list list" where
  "upper_layers H currentLayer =
     (if length currentLayer > 1
      then (let nextLayer = hash_pairs H currentLayer in nextLayer # upper_layers H nextLayer)
      else [])"
  by pat_completeness auto
termination
proof (relation "measure (\<lambda>(H, currentLayer). length currentLayer)")
  show "wf (measure (\<lambda>(H, currentLayer). length currentLayer))" by simp
next
  fix H :: "'h \<Rightarrow> 'h \<Rightarrow> 'h" and currentLayer nextLayer :: "'h list"
  assume "1 < length currentLayer" and "nextLayer = hash_pairs H currentLayer"
  moreover have "length (hash_pairs H xs) = (length xs + 1) div 2" for xs
    by (induction H xs rule: hash_pairs.induct) simp_all
  ultimately show "((H, nextLayer), (H, currentLayer))
                   \<in> measure (\<lambda>(H, currentLayer). length currentLayer)"
    by simp
qed

declare upper_layers.simps [simp del]

text \<open>The \<^verbatim>\<open>while (currentLayer.length < 2 ** this.depth)\<close> loop pushes \<open>Z\<close> until the bound.\<close>

definition pad_layer :: "'h \<Rightarrow> depth \<Rightarrow> 'h list \<Rightarrow> 'h list" where
  "pad_layer Z d xs = xs @ replicate (pow2 d - length xs) Z"

definition buildTree :: "('h \<Rightarrow> 'h \<Rightarrow> 'h) \<Rightarrow> 'h \<Rightarrow> 'h MerkleTree \<Rightarrow> 'h MerkleTree" where
  "buildTree H Z t =
     (let currentLayer = pad_layer Z (depth t) (leaves t)
      in t\<lparr>layers := layers t @ [currentLayer] @ upper_layers H currentLayer\<rparr>)"

text \<open>The constructor; the optional argument \<^verbatim>\<open>depth\<close> is \<open>None\<close> when it is left out.\<close>

definition new_MerkleTree ::
  "('h \<Rightarrow> 'h \<Rightarrow> 'h) \<Rightarrow> 'h \<Rightarrow> 'h list \<Rightarrow> nat option \<Rightarrow> 'h MerkleTree" where
  "new_MerkleTree H Z ls d =
     buildTree H Z
       \<lparr>leaves = ls, layers = [],
        depth = js_or (js_or (case d of None \<Rightarrow> Finite 0 | Some k \<Rightarrow> Finite k)
                             (Math_ceil_log2 (length ls)))
                      (Finite 1)\<rparr>"

text \<open>
  \<^verbatim>\<open>this.layers[this.layers.length - 1][0]\<close>: a TypeError without any layer, and
  \<^verbatim>\<open>undefined\<close> (\<open>None\<close>) when the last layer is empty.
\<close>

definition getRoot :: "'h MerkleTree \<Rightarrow> error + 'h option" where
  "getRoot t =
     (if layers t = [] then Inl TypeError
      else (case last (layers t) of [] \<Rightarrow> Inr None | r # rest \<Rightarrow> Inr (Some r)))"

text \<open>The loop of \<^verbatim>\<open>getProof\<close> over all layers but the last.\<close>

fun getProof_loop :: "'h list list \<Rightarrow> nat \<Rightarrow> 'h list" where
  "getProof_loop (layer # next # rest) currentIndex =
     (let isRightNode = (currentIndex mod 2 = 1);
          siblingIndex = (if isRightNode then currentIndex - 1 else currentIndex + 1)
      in (if siblingIndex < length layer then [layer ! siblingIndex] else [])
         @ getProof_loop (next # rest) (currentIndex div 2))"
| "getProof_loop [layer] currentIndex = []"
| "getProof_loop [] currentIndex = []"

definition getProof :: "'h MerkleTree \<Rightarrow> int \<Rightarrow> error + 'h list" where
  "getProof t index =
     (if index < 0 \<or> index \<ge> int (length (leaves t)) then Inl IndexOutOfBounds
      else Inr (getProof_loop (layers t) (nat index)))"

text \<open>
  The static \<^verbatim>\<open>verifyProof\<close>; on integers \<^verbatim>\<open>Math.floor(currentIndex / 2)\<close> is \<open>div\<close>, and
  \<^verbatim>\<open>currentIndex % 2 === 0\<close> holds exactly when \<open>currentIndex mod 2 = 0\<close>.
\<close>

fun verifyProof_loop :: "('h \<Rightarrow> 'h \<Rightarrow> 'h) \<Rightarrow> 'h \<Rightarrow> 'h list \<Rightarrow> int \<Rightarrow> 'h" where
  "verifyProof_loop H currentHash [] currentIndex = currentHash"
| "verifyProof_loop H currentHash (proofElement # rest) currentIndex =
     verifyProof_loop H
       (if currentIndex mod 2 = 0 then H currentHash proofElement
        else H proofElement currentHash)
       rest (currentIndex div 2)"

definition verifyProof :: "('h \<Rightarrow> 'h \<Rightarrow> 'h) \<Rightarrow> 'h \<Rightarrow> 'h list \<Rightarrow> 'h \<Rightarrow> int \<Rightarrow> bool" where
  "verifyProof H leaf prf rt index \<longleftrightarrow> verifyProof_loop H leaf prf index = rt"

subsection \<open>The orchestrator's reduction (core/x402Protocol)\<close>

function computeMerkleRoot :: "('h \<Rightarrow> 'h \<Rightarrow> 'h) \<Rightarrow> 'h \<Rightarrow> 'h list \<Rightarrow> 'h" where
  "computeMerkleRoot H Z ls =
     (if length ls = 0 then Z
      else if length ls = 1 then ls ! 0
      else computeMerkleRoot H Z (hash_pairs H ls))"
  by pat_completeness auto
termination
proof (relation "measure (\<lambda>(H, Z, ls). length ls)")
  show "wf (measure (\<lambda>(H, Z, ls). length ls))" by simp
next
  fix H :: "'h \<Rightarrow> 'h \<Rightarrow> 'h" and Z :: 'h and ls :: "'h list"
  assume "length ls \<noteq> 0" and "length ls \<noteq> 1"
  then have "1 < length ls" by linarith
  moreover have "length (hash_pairs H xs) = (length xs + 1) div 2" for xs
    by (induction H xs rule: hash_pairs.induct) simp_all
  ultimately show "((H, Z, hash_pairs H ls), (H, Z, ls)) \<in> measure (\<lambda>(H, Z, ls). length ls)"
    by simp
qed

declare computeMerkleRoot.simps [simp del]

text \<open>
  An ideal hash for closed examples: digests are terms, so two digests are equal only when
  they were built the same way (no collisions).
\<close>

datatype digest = ZeroHash | Leaf nat | Keccak digest digest

section \<open>Properties of the field arithmetic\<close>

lemma mod_m_pos: "0 < m \<Longrightarrow> mod_m a m = Inr (a mod m)"
proof -
  assume m: "0 < m"
  show ?thesis
  proof (cases "0 \<le> a")
    case True
    with m show ?thesis
      by (simp add: mod_m_def signed_modulo_int_def sgn_if Let_def)
  next
    case False
    then have neg: "a < 0" by simp
    have eq: "a mod m = (if (- a) mod m = 0 then 0 else m - (- a) mod m)"
      using zmod_zminus1_eq_if [of "- a" m] by simp
    have nn: "(- a) mod m \<le> 0 \<Longrightarrow> (- a) mod m = 0"
      using pos_mod_sign [OF m, of "- a"] by linarith
    from m neg nn show ?thesis
      by (auto simp add: mod_m_def signed_modulo_int_def sgn_if Let_def eq)
  qed
qed

lemma FIELD_SIZE_pos: "0 < FIELD_SIZE"
  by (simp add: FIELD_SIZE_def)

lemma FIELD_SIZE_smod4: "FIELD_SIZE smod 4 = 1"
  by (simp add: FIELD_SIZE_def signed_modulo_int_def)

lemma powMod_loop_pos:
  "0 < m \<Longrightarrow> 0 < e \<Longrightarrow> powMod_loop r b e m = Inr (r * b ^ nat e mod m)"
proof (induction r b e m rule: powMod_loop.induct)
  case (1 result b e m)
  have sd: "e sdiv 2 = e div 2" and sm: "e smod 2 = e mod 2"
    using \<open>0 < e\<close> by (simp_all add: signed_divide_int_def signed_modulo_int_def sgn_if)
  define r' where "r' = (if e mod 2 = 1 then result * b mod m else result)"
  have step: "powMod_loop result b e m = powMod_loop r' (b * b mod m) (e div 2) m"
    using \<open>0 < e\<close> \<open>0 < m\<close> by (subst powMod_loop.simps) (simp add: mod_m_pos sm sd r'_def)
  have ne: "nat e = 2 * nat (e div 2) + nat (e mod 2)"
  proof -
    have "0 \<le> e div 2" "0 \<le> e mod 2" using \<open>0 < e\<close> by simp_all
    then have "int (2 * nat (e div 2) + nat (e mod 2)) = e" by simp
    then show ?thesis by linarith
  qed
  have pw: "(b * b mod m) ^ nat (e div 2) mod m = b ^ (2 * nat (e div 2)) mod m"
    by (simp add: power_mult power2_eq_square power_mod)
  have r'_eq: "r' mod m = result * b ^ nat (e mod 2) mod m"
  proof (cases "e mod 2 = 1")
    case True then show ?thesis by (simp add: r'_def)
  next
    case False
    then have "e mod 2 = 0" by presburger
    then show ?thesis by (simp add: r'_def)
  qed
  have total: "r' * (b * b mod m) ^ nat (e div 2) mod m = result * b ^ nat e mod m"
  proof -
    have "r' * (b * b mod m) ^ nat (e div 2) mod m
          = (r' mod m) * ((b * b mod m) ^ nat (e div 2) mod m) mod m"
      by (simp add: mod_mult_eq)
    also have "\<dots> = (result * b ^ nat (e mod 2) mod m) * (b ^ (2 * nat (e div 2)) mod m) mod m"
      by (simp only: r'_eq pw)
    also have "\<dots> = (result * b ^ nat (e mod 2)) * b ^ (2 * nat (e div 2)) mod m"
      by (simp add: mod_mult_eq)
    also have "(result * b ^ nat (e mod 2)) * b ^ (2 * nat (e div 2)) = result * b ^ nat e"
    proof -
      have "b ^ nat e = b ^ (2 * nat (e div 2) + nat (e mod 2))"
        using ne by simp
      then show ?thesis by (simp add: power_add)
    qed
    finally show ?thesis .
  qed
  show ?case
  proof (cases "e div 2 = 0")
    case True
    with \<open>0 < e\<close> have e1: "e = 1" by presburger
    have "powMod_loop r' (b * b mod m) (e div 2) m = Inr r'"
      using True by (subst powMod_loop.simps) simp
    moreover have "r' = result * b mod m"
      using e1 by (simp add: r'_def)
    ultimately show ?thesis
      using step e1 by simp
  next
    case False
    with \<open>0 < e\<close> have e2: "0 < e div 2" by presburger
    have "powMod_loop r' (b * b mod m) (e div 2) m
          = Inr (r' * (b * b mod m) ^ nat (e div 2) mod m)"
    proof (cases "e mod 2 = 1")
      case True
      then show ?thesis
        using 1(1) [of r' "b * b mod m"] \<open>0 < e\<close> \<open>0 < m\<close> e2
        by (simp add: mod_m_pos sm sd r'_def)
    next
      case False
      then show ?thesis
        using 1(1) [of r' "b * b mod m"] \<open>0 < e\<close> \<open>0 < m\<close> e2
        by (simp add: mod_m_pos sm sd r'_def)
    qed
    with step total show ?thesis by simp
  qed
qed

lemma powMod_pos:
  assumes "0 < m" "0 \<le> ex"
  shows "powMod base ex m = Inr (if ex = 0 then 1 else base ^ nat ex mod m)"
proof -
  have "ex \<noteq> 0 \<Longrightarrow> ex \<noteq> 1 \<Longrightarrow> powMod_loop 1 (base mod m) ex m = Inr (base ^ nat ex mod m)"
    using assms powMod_loop_pos [of m ex 1 "base mod m"] by (simp add: power_mod)
  with assms show ?thesis
    by (simp add: powMod_def mod_m_pos)
qed


lemma FIELD_SIZE_half: "(FIELD_SIZE - 1) sdiv 2 = (FIELD_SIZE - 1) div 2" "0 < (FIELD_SIZE - 1) div 2"
  by (simp_all add: FIELD_SIZE_def signed_divide_int_def)

lemma isQuadraticResidue_default:
  "isQuadraticResidue a FIELD_SIZE =
     Inr (a = 0 \<or> a ^ nat ((FIELD_SIZE - 1) div 2) mod FIELD_SIZE = 1)"
proof -
  have "powMod a ((FIELD_SIZE - 1) div 2) FIELD_SIZE
        = Inr (a ^ nat ((FIELD_SIZE - 1) div 2) mod FIELD_SIZE)"
    using powMod_pos [OF FIELD_SIZE_pos, of "(FIELD_SIZE - 1) div 2" a] FIELD_SIZE_half(2)
    by simp
  then show ?thesis
    by (simp add: isQuadraticResidue_def FIELD_SIZE_half(1) Let_def)
qed

text \<open>
  C10.  With the default modulus \<open>sqrtMod\<close> never returns a value.  \<open>FIELD_SIZE\<close> is 1
  modulo 4, so the branch for primes that are 3 modulo 4 is never taken.  For every \<open>a\<close>
  (in particular every \<open>a\<close> in [0, p)) the quadratic-residue check itself returns without an
  error, and \<open>sqrtMod a\<close> throws: 'Square root does not exist in field' when the check
  \<open>isQuadraticResidue\<close> says no, and 'General case not implemented' when it says yes.  The
  residue check comes first, so a non-residue gets the first error although the prime shape is
  unsupported as well.
\<close>

theorem sqrtMod_default_never_returns:
  "FIELD_SIZE smod 4 = 1
   \<and> isQuadraticResidue a FIELD_SIZE =
       Inr (a = 0 \<or> a ^ nat ((FIELD_SIZE - 1) div 2) mod FIELD_SIZE = 1)
   \<and> sqrtMod a FIELD_SIZE =
       (if isQuadraticResidue a FIELD_SIZE = Inr True then Inl NotImplemented
        else Inl NoSquareRoot)"
proof -
  have "sqrtMod a FIELD_SIZE =
       (if isQuadraticResidue a FIELD_SIZE = Inr True then Inl NotImplemented
        else Inl NoSquareRoot)"
    by (simp add: sqrtMod_def isQuadraticResidue_default FIELD_SIZE_smod4)
  with FIELD_SIZE_smod4 isQuadraticResidue_default show ?thesis
    by blast
qed
section \<open>Properties of the payment circuit\<close>

lemma reduce_sum_eq: "reduce_sum xs = sum_list xs"
proof -
  have "foldl (\<lambda>acc val. acc + val) s xs = s + sum_list xs" for s :: int
    by (induction xs arbitrary: s) simp_all
  then show ?thesis by (simp add: reduce_sum_def)
qed

lemma aligned_defineConstraint:
  "aligned (constraints c) \<Longrightarrow> aligned (constraints (defineConstraint a b c' c))"
  by (simp add: aligned_def defineConstraint_def)

lemma reachable_aligned: "reachable c \<Longrightarrow> aligned (constraints c)"
proof (induction rule: reachable.induct)
  case r_new
  show ?case by (simp add: new_PaymentCircuit_def initializeCircuit_def aligned_def)
next
  case (r_setSignal c name v)
  then show ?case by (simp add: setSignal_def)
next
  case (r_defineConstraint c a b c')
  from r_defineConstraint.IH show ?case by (rule aligned_defineConstraint)
next
  case (r_addRange c s lo hi d)
  then show ?case
    by (auto simp: addRangeConstraint_def split: option.splits if_splits
             intro: aligned_defineConstraint)
next
  case (r_addEquality c s1 s2 d)
  then show ?case
    by (auto simp: addEqualityConstraint_def split: option.splits if_splits
             intro: aligned_defineConstraint)
next
  case (r_addMultiplication c s1 s2 s3 d)
  then show ?case
    by (auto simp: addMultiplicationConstraint_def split: option.splits if_splits
             intro: aligned_defineConstraint)
next
  case (r_reset c)
  show ?case by (simp add: reset_def initializeCircuit_def aligned_def)
qed

lemma verifyCircuit_loop_aligned:
  assumes "aligned cs"
  shows "verifyCircuit_loop cs i =
           Inr (\<forall>j. i \<le> j \<and> j < length (cA cs) \<longrightarrow> holds (cA cs ! j, cB cs ! j, cC cs ! j))"
  using assms
proof (induction cs i rule: verifyCircuit_loop.induct)
  case (1 cs i)
  show ?case
  proof (cases "i < length (cA cs)")
    case False
    then show ?thesis by (subst verifyCircuit_loop.simps) auto
  next
    case True
    with 1(2) have len: "i < length (cB cs)" "i < length (cC cs)"
      by (simp_all add: aligned_def)
    show ?thesis
    proof (cases "holds (cA cs ! i, cB cs ! i, cC cs ! i)")
      case False
      then have "verifyCircuit_loop cs i = Inr False"
        using True len by (subst verifyCircuit_loop.simps) (simp add: holds_def reduce_sum_eq)
      moreover have "\<not> (\<forall>j. i \<le> j \<and> j < length (cA cs) \<longrightarrow> holds (cA cs ! j, cB cs ! j, cC cs ! j))"
        using False True by blast
      ultimately show ?thesis by simp
    next
      case h: True
      then have "verifyCircuit_loop cs i = verifyCircuit_loop cs (i + 1)"
        using True len by (subst verifyCircuit_loop.simps) (simp add: holds_def reduce_sum_eq)
      also have "\<dots> = Inr (\<forall>j. i + 1 \<le> j \<and> j < length (cA cs) \<longrightarrow> holds (cA cs ! j, cB cs ! j, cC cs ! j))"
        using 1(1) [OF True] len h 1(2) by (simp add: holds_def reduce_sum_eq Let_def)
      also have "(\<forall>j. i + 1 \<le> j \<and> j < length (cA cs) \<longrightarrow> holds (cA cs ! j, cB cs ! j, cC cs ! j))
                 = (\<forall>j. i \<le> j \<and> j < length (cA cs) \<longrightarrow> holds (cA cs ! j, cB cs ! j, cC cs ! j))"
      proof -
        have "i \<le> j \<longleftrightarrow> j = i \<or> i + 1 \<le> j" for j by auto
        with h show ?thesis by auto
      qed
      finally show ?thesis .
    qed
  qed
qed

lemma list_all_recorded:
  assumes "aligned (constraints c)"
  shows "list_all holds (recorded c) \<longleftrightarrow>
         (\<forall>j. j < length (cA (constraints c)) \<longrightarrow>
              holds (cA (constraints c) ! j, cB (constraints c) ! j, cC (constraints c) ! j))"
  using assms by (auto simp: list_all_length recorded_def aligned_def)

lemma recorded_defineConstraint:
  "reachable c \<Longrightarrow> recorded (defineConstraint a b c' c) = recorded c @ [(a, b, c')]"
  by (drule reachable_aligned) (simp add: recorded_def defineConstraint_def aligned_def)

text \<open>
  C4.  For every circuit built by the constructor and the public methods, \<open>verifyCircuit\<close>
  returns true exactly when every recorded triple (A, B, C) satisfies
  (sum of A) * (sum of B) = (sum of C) over the unbounded integers, with no reduction
  modulo p.  A constraint stores the values it was given when it was recorded: \<open>setSignal\<close>
  afterwards changes neither the recorded triples nor the result of \<open>verifyCircuit\<close>.
\<close>

theorem verifyCircuit_iff_recorded:
  assumes "reachable c"
  shows "(verifyCircuit c \<longleftrightarrow> list_all holds (recorded c))
         \<and> recorded (setSignal name v c) = recorded c
         \<and> verifyCircuit (setSignal name v c) = verifyCircuit c"
proof -
  have al: "aligned (constraints c)"
    using assms by (rule reachable_aligned)
  have "verifyCircuit c \<longleftrightarrow> list_all holds (recorded c)"
    by (simp add: verifyCircuit_def verifyCircuit_loop_aligned [OF al] list_all_recorded [OF al])
  moreover have "recorded (setSignal name v c) = recorded c"
    by (simp add: recorded_def setSignal_def)
  moreover have "verifyCircuit (setSignal name v c) = verifyCircuit c"
    by (simp add: verifyCircuit_def setSignal_def)
  ultimately show ?thesis by simp
qed

theorem verifyCircuit_iff_recorded_witness:
  "reachable example_circuit
   \<and> recorded example_circuit = [([3], [1], [4]), ([2, 1], [4], [5, 7])]
   \<and> \<not> verifyCircuit example_circuit
   \<and> \<not> verifyCircuit (setSignal ''x'' 4 example_circuit)"
proof -
  have r: "reachable example_circuit"
    unfolding example_circuit_def
    by (intro reachable.r_defineConstraint reachable.r_setSignal reachable.r_new)
  have rec: "recorded example_circuit = [([3], [1], [4]), ([2, 1], [4], [5, 7])]"
    by (simp add: example_circuit_def recorded_def defineConstraint_def setSignal_def
                  new_PaymentCircuit_def initializeCircuit_def)
  have "\<not> list_all holds (recorded example_circuit)"
    by (simp add: rec holds_def)
  with verifyCircuit_iff_recorded [OF r, of "''x''" 4] r rec show ?thesis
    by simp
qed

section \<open>Properties of the permutation hash\<close>

lemma modP_eq: "modP a = a mod FIELD_SIZE"
  using mod_m_pos [OF FIELD_SIZE_pos, of a] FIELD_SIZE_pos
  by (simp add: mod_m_def modP_def Let_def)

lemma bind_err_simps [simp]: "bind_err (Inr v) f = f v" "bind_err (Inl e) f = Inl e"
  by (simp_all add: bind_err_def)

lemma forM_append: "forM (xs @ ys) body s = bind_err (forM xs body s) (forM ys body)"
  by (induction xs arbitrary: s) (simp_all add: bind_err_def split: sum.splits)

lemma forM_invariant:
  assumes step: "\<And>i s. i \<in> set xs \<Longrightarrow> P s \<Longrightarrow> \<exists>s'. body i s = Inr s' \<and> P s'"
    and init: "P s"
  shows "\<exists>s'. forM xs body s = Inr s' \<and> P s'"
  using assms
proof (induction xs arbitrary: s)
  case Nil
  then show ?case by simp
next
  case (Cons i rest)
  from Cons.prems(1) [of i s] Cons.prems(2) obtain s1 where s1: "body i s = Inr s1" "P s1"
    by auto
  have "\<exists>s'. forM rest body s1 = Inr s' \<and> P s'"
    by (rule Cons.IH) (use Cons.prems(1) s1(2) in auto)
  with s1 show ?case by (simp add: bind_err_def)
qed

text \<open>The state after the absorbing loop, entry by entry.\<close>

lemma absorb_loop:
  "length st = Suc k \<Longrightarrow> n \<le> k \<Longrightarrow>
   \<exists>st'. forM [0..<n] (\<lambda>i state. Inr (state[i + 1 := f i])) st = Inr st'
         \<and> length st' = Suc k
         \<and> (\<forall>j \<le> k. st' ! j = (if 1 \<le> j \<and> j - 1 < n then f (j - 1) else st ! j))"
proof (induction n)
  case 0
  then show ?case by simp
next
  case (Suc n)
  then obtain st1 where st1:
    "forM [0..<n] (\<lambda>i state. Inr (state[i + 1 := f i])) st = Inr st1"
    "length st1 = Suc k"
    "\<forall>j \<le> k. st1 ! j = (if 1 \<le> j \<and> j - 1 < n then f (j - 1) else st ! j)"
    by auto
  have "forM [0..<Suc n] (\<lambda>i state. Inr (state[i + 1 := f i])) st = Inr (st1[n + 1 := f n])"
    using st1(1) by (simp add: forM_append)
  moreover have "\<forall>j \<le> k. (st1[n + 1 := f n]) ! j
                   = (if 1 \<le> j \<and> j - 1 < Suc n then f (j - 1) else st ! j)"
    using st1(2,3) Suc.prems(2) by (auto simp: nth_list_update)
  ultimately show ?case using st1(2) by simp
qed

lemma absorb_state:
  "\<exists>st. absorb new_PoseidonHash xs = Inr st \<and> length st = 6
        \<and> st ! 0 = 0 \<and> (\<forall>i < 5. st ! (i + 1) = input_or_zero xs i mod FIELD_SIZE)"
proof -
  let ?n = "min (length xs) 5"
  have "length (replicate 6 (0::int)) = Suc 5" "?n \<le> 5" by simp_all
  from absorb_loop [OF this, of "\<lambda>i. modP (xs ! i)"]
  obtain st where st:
    "forM [0..<?n] (\<lambda>i state. Inr (state[i + 1 := modP (xs ! i)])) (replicate 6 0) = Inr st"
    "length st = 6"
    "\<forall>j \<le> 5. st ! j = (if 1 \<le> j \<and> j - 1 < ?n then modP (xs ! (j - 1))
                         else replicate 6 (0::int) ! j)"
    by auto
  have ab: "absorb new_PoseidonHash xs = Inr st"
    using st(1) by (simp add: absorb_def new_PoseidonHash_def Let_def)
  have z: "st ! 0 = 0" using st(3) by simp
  have "st ! (i + 1) = input_or_zero xs i mod FIELD_SIZE" if "i < 5" for i
  proof -
    have "st ! (i + 1) = (if i < ?n then modP (xs ! i) else 0)"
      using st(3) that by simp
    then show ?thesis
      using that by (simp add: input_or_zero_def modP_eq)
  qed
  with ab st(2) z show ?thesis by blast
qed

lemma absorb_cong:
  assumes "\<forall>i < 5. input_or_zero xs i mod FIELD_SIZE = input_or_zero ys i mod FIELD_SIZE"
  shows "absorb new_PoseidonHash xs = absorb new_PoseidonHash ys"
proof -
  from absorb_state [of xs] obtain sx where sx: "absorb new_PoseidonHash xs = Inr sx"
    "length sx = 6" "sx ! 0 = 0" "\<forall>i < 5. sx ! (i + 1) = input_or_zero xs i mod FIELD_SIZE"
    by blast
  from absorb_state [of ys] obtain sy where sy: "absorb new_PoseidonHash ys = Inr sy"
    "length sy = 6" "sy ! 0 = 0" "\<forall>i < 5. sy ! (i + 1) = input_or_zero ys i mod FIELD_SIZE"
    by blast
  have "sx ! j = sy ! j" if "j < 6" for j
  proof (cases j)
    case 0
    with sx(3) sy(3) show ?thesis by simp
  next
    case (Suc i)
    with that have "i < 5" by simp
    with sx(4) sy(4) assms Suc show ?thesis by simp
  qed
  with sx(2) sy(2) have "sx = sy" by (simp add: list_eq_iff_nth_eq)
  with sx(1) sy(1) show ?thesis by simp
qed

subsection \<open>No round can fail on a state of six entries\<close>

lemma poseidon_params:
  "pt new_PoseidonHash = 6" "nRoundsF new_PoseidonHash = 8" "nRoundsP new_PoseidonHash = 57"
  "length (pC new_PoseidonHash) = 390" "length (pM new_PoseidonHash) = 6"
  "i < 6 \<Longrightarrow> length (pM new_PoseidonHash ! i) = 6"
  by (simp_all add: new_PoseidonHash_def Let_def)

lemma ark_total:
  assumes "length st = 6" "r < 65"
  shows "\<exists>st'. ark new_PoseidonHash st r = Inr st' \<and> length st' = 6"
  unfolding ark_def
proof (rule forM_invariant [where P = "\<lambda>s. length s = 6"])
  fix i and s :: "int list"
  assume "i \<in> set [0..<pt new_PoseidonHash]" and "length s = 6"
  then have "i < 6" by (simp add: poseidon_params)
  with \<open>r < 65\<close> have "r * 6 + i < 390" by linarith
  with \<open>i < 6\<close> \<open>length s = 6\<close>
  show "\<exists>s'. bind_err (read_at s i) (\<lambda>sa. bind_err
              (read_at (pC new_PoseidonHash) (r * pt new_PoseidonHash + i))
              (\<lambda>c. Inr (s[i := modP (sa + c)]))) = Inr s' \<and> length s' = 6"
    by (simp add: bind_err_def read_at_def poseidon_params)
qed (rule assms)

lemma sbox_total:
  assumes "length st = 6"
  shows "\<exists>st'. sbox new_PoseidonHash st r full = Inr st' \<and> length st' = 6"
proof (cases full)
  case False
  with assms show ?thesis by (simp add: sbox_def bind_err_def read_at_def)
next
  case True
  have "\<exists>st'. forM [0..<pt new_PoseidonHash]
          (\<lambda>i newState. bind_err (read_at newState i) (\<lambda>s. Inr (newState[i := pow5 s]))) st
          = Inr st' \<and> length st' = 6"
  proof (rule forM_invariant [where P = "\<lambda>s. length s = 6"])
    fix i and s :: "int list"
    assume "i \<in> set [0..<pt new_PoseidonHash]" and "length s = 6"
    then show "\<exists>s'. bind_err (read_at s i) (\<lambda>sa. Inr (s[i := pow5 sa])) = Inr s' \<and> length s' = 6"
      by (simp add: bind_err_def read_at_def poseidon_params)
  qed (rule assms)
  with True show ?thesis by (simp add: sbox_def)
qed

lemma mix_total:
  assumes "length st = 6"
  shows "\<exists>st'. mix new_PoseidonHash st = Inr st' \<and> length st' = 6"
  unfolding mix_def
proof (rule forM_invariant [where P = "\<lambda>s. length s = 6"])
  fix i and s :: "int list"
  assume i: "i \<in> set [0..<pt new_PoseidonHash]" and s: "length s = 6"
  show "\<exists>s'. forM [0..<pt new_PoseidonHash]
          (\<lambda>j newState.
             bind_err (read_at newState i) (\<lambda>acc.
             bind_err (read_at (pM new_PoseidonHash) i) (\<lambda>row.
             bind_err (read_at row j) (\<lambda>m.
             bind_err (read_at st j) (\<lambda>s.
             Inr (newState[i := modP (acc + modP (m * s))])))))) s = Inr s' \<and> length s' = 6"
  proof (rule forM_invariant [where P = "\<lambda>s. length s = 6"])
    fix j and ns :: "int list"
    assume "j \<in> set [0..<pt new_PoseidonHash]" and "length ns = 6"
    with i assms show "\<exists>s'. bind_err (read_at ns i) (\<lambda>acc.
             bind_err (read_at (pM new_PoseidonHash) i) (\<lambda>row.
             bind_err (read_at row j) (\<lambda>m.
             bind_err (read_at st j) (\<lambda>s.
             Inr (ns[i := modP (acc + modP (m * s))]))))) = Inr s' \<and> length s' = 6"
      by (simp add: bind_err_def read_at_def poseidon_params)
  qed (rule s)
qed (simp add: poseidon_params)

lemma round_step_total:
  assumes "length st = 6" "r < 65"
  shows "\<exists>st'. round_step new_PoseidonHash r full st = Inr st' \<and> length st' = 6"
proof -
  from ark_total [OF assms] obtain s1 where s1: "ark new_PoseidonHash st r = Inr s1" "length s1 = 6"
    by blast
  from sbox_total [OF s1(2), of r full] obtain s2 where
    s2: "sbox new_PoseidonHash s1 r full = Inr s2" "length s2 = 6" by blast
  from mix_total [OF s2(2)] obtain s3 where s3: "mix new_PoseidonHash s2 = Inr s3" "length s3 = 6"
    by blast
  from s1 s2 s3 show ?thesis by (simp add: round_step_def bind_err_def)
qed

lemma rounds_total:
  assumes "length st = 6" "off + n \<le> 65"
  shows "\<exists>st'. forM [0..<n] (\<lambda>r. round_step new_PoseidonHash (off + r) full) st = Inr st'
              \<and> length st' = 6"
proof (rule forM_invariant [where P = "\<lambda>s. length s = 6"])
  fix i and s :: "int list"
  assume "i \<in> set [0..<n]" and "length s = 6"
  with assms(2) show "\<exists>s'. round_step new_PoseidonHash (off + i) full s = Inr s' \<and> length s' = 6"
    by (intro round_step_total) simp_all
qed (rule assms)

lemma poseidonHash_total: "\<exists>v. poseidonHash xs = Inr v"
proof -
  from absorb_state [of xs] obtain st where st: "absorb new_PoseidonHash xs = Inr st" "length st = 6"
    by blast
  from rounds_total [OF st(2), of 0 4 True] obtain s1 where s1:
    "forM [0..<4] (\<lambda>r. round_step new_PoseidonHash r True) st = Inr s1" "length s1 = 6"
    by auto
  from rounds_total [OF s1(2), of 4 57 False] obtain s2 where s2:
    "forM [0..<57] (\<lambda>r. round_step new_PoseidonHash (4 + r) False) s1 = Inr s2" "length s2 = 6"
    by auto
  from rounds_total [OF s2(2), of 61 4 True] obtain s3 where s3:
    "forM [0..<4] (\<lambda>r. round_step new_PoseidonHash (61 + r) True) s2 = Inr s3" "length s3 = 6"
    by auto
  have "read_at s3 0 = Inr (s3 ! 0)"
    using s3(2) by (simp add: read_at_def)
  then show ?thesis
    by (simp add: poseidonHash_def hash_def poseidon_params Let_def st(1) s1(1) s2(1) s3(1))
qed

text \<open>
  C9.  \<open>poseidonHash\<close> depends on at most the first \<open>t - 1 = 5\<close> inputs, each taken modulo
  \<open>FIELD_SIZE\<close>: if for every position \<open>i\<close> in 0..4 the \<open>i\<close>-th element of \<open>xs\<close> (0 when
  absent) is congruent modulo \<open>FIELD_SIZE\<close> to the \<open>i\<close>-th element of \<open>ys\<close>, the two hashes
  are equal.  Inputs beyond the fifth are ignored, values outside the field (negative ones
  too) are reduced, and the call never throws: it returns a value for every input list.
\<close>

theorem poseidonHash_first_five_mod_p:
  assumes "\<forall>i < 5. input_or_zero xs i mod FIELD_SIZE = input_or_zero ys i mod FIELD_SIZE"
  shows "poseidonHash xs = poseidonHash ys \<and> (\<exists>v. poseidonHash xs = Inr v)"
proof -
  have "poseidonHash xs = poseidonHash ys"
    by (simp add: poseidonHash_def hash_def absorb_cong [OF assms])
  with poseidonHash_total [of xs] show ?thesis by simp
qed


text \<open>
  Witness for C9: two inputs against seven, with entries outside the field, explicit zeros
  and two ignored trailing entries.
\<close>

theorem poseidonHash_first_five_mod_p_witness:
  "poseidonHash [1, 2] = poseidonHash [1 - FIELD_SIZE, 2 + FIELD_SIZE, 0, FIELD_SIZE, 0, 77, 5]
   \<and> (\<exists>v. poseidonHash [1, 2] = Inr v)"
proof -
  have "i < 5 \<longleftrightarrow> i = 0 \<or> i = 1 \<or> i = 2 \<or> i = 3 \<or> i = 4" for i :: nat
    by auto
  then have "\<forall>i < 5. input_or_zero [1, 2] i mod FIELD_SIZE
               = input_or_zero [1 - FIELD_SIZE, 2 + FIELD_SIZE, 0, FIELD_SIZE, 0, 77, 5] i
                 mod FIELD_SIZE"
    by (auto simp: input_or_zero_def mod_diff_right_eq)
  from poseidonHash_first_five_mod_p [OF this] show ?thesis .
qed


section \<open>Properties of the Merkle tree\<close>

lemma length_hash_pairs: "length (hash_pairs H xs) = (length xs + 1) div 2"
  by (induction H xs rule: hash_pairs.induct) simp_all

lemma hash_pairs_nth:
  "2 * j + 1 < length xs \<Longrightarrow> hash_pairs H xs ! j = H (xs ! (2 * j)) (xs ! (2 * j + 1))"
proof (induction H xs arbitrary: j rule: hash_pairs.induct)
  case (1 H left right rest)
  then show ?case by (cases j) simp_all
qed simp_all

lemma clog2_upper: "n \<le> 2 ^ clog2 n"
proof (induction n rule: clog2.induct)
  case (1 n)
  show ?case
  proof (cases "n \<le> 1")
    case True
    then show ?thesis by (subst clog2.simps) simp
  next
    case False
    with 1 have "(n + 1) div 2 \<le> 2 ^ clog2 ((n + 1) div 2)" by simp
    then have "n \<le> 2 * 2 ^ clog2 ((n + 1) div 2)" by linarith
    with False show ?thesis by (subst clog2.simps) simp
  qed
qed

lemma clog2_small: "clog2 0 = 0" "clog2 (Suc 0) = 0" "clog2 2 = 1" "clog2 3 = 2"
proof -
  show 0: "clog2 0 = 0" by (subst clog2.simps) simp
  show 1: "clog2 (Suc 0) = 0" by (subst clog2.simps) simp
  show 2: "clog2 2 = 1" by (subst clog2.simps) (simp add: 1)
  show "clog2 3 = 2" by (subst clog2.simps) (simp add: 2)
qed

lemma clog2_small_Suc: "clog2 (Suc (Suc 0)) = 1" "clog2 (Suc (Suc (Suc 0))) = 2"
  using clog2_small(3,4) by (simp_all add: numeral_2_eq_2 numeral_3_eq_3)

lemma clog2_lower: "2 \<le> n \<Longrightarrow> 2 ^ (clog2 n - 1) < n"
proof (induction n rule: clog2.induct)
  case (1 n)
  show ?case
  proof (cases "n \<le> 3")
    case True
    with 1(2) have "n = 2 \<or> n = 3" by linarith
    then show ?thesis
      by (auto simp: clog2_small)
  next
    case False
    then have h: "2 \<le> (n + 1) div 2" "\<not> n \<le> 1" by linarith+
    define c where "c = clog2 ((n + 1) div 2)"
    from h 1(1) have "2 ^ (c - 1) < (n + 1) div 2" by (simp add: c_def)
    moreover have cpos: "0 < c"
      unfolding c_def using h(1) by (subst clog2.simps) simp
    ultimately have lt: "2 ^ c < 2 * ((n + 1) div 2)"
      by (cases c) simp_all
    have "(2::nat) ^ c < n"
    proof (cases "even n")
      case True
      then have "2 * ((n + 1) div 2) = n" by (auto elim: evenE)
      with lt show ?thesis by simp
    next
      case False
      have "even ((2::nat) ^ c)" using cpos by simp
      with False have "(2::nat) ^ c \<noteq> n" by metis
      moreover have "2 ^ c < n + 1" using lt by linarith
      ultimately show ?thesis by linarith
    qed
    with h(2) show ?thesis by (subst clog2.simps) (simp add: c_def)
  qed
qed

lemma clog2_pow2: "clog2 (2 ^ k) = k"
proof (induction k)
  case 0
  show ?case by (simp add: clog2_small)
next
  case (Suc k)
  have "(2 ^ Suc k + 1) div 2 = (2::nat) ^ k" by simp
  moreover have "\<not> (2::nat) ^ Suc k \<le> 1"
  proof -
    have "(1::nat) \<le> 2 ^ k" by simp
    then have "(1::nat) < 2 * 2 ^ k" by linarith
    then show ?thesis by (simp only: power_Suc)
  qed
  ultimately show ?case using Suc by (subst clog2.simps) (simp del: power_Suc)
qed

text \<open>\<open>clog2\<close> is the ceiling of the binary logarithm.\<close>

lemma clog2_ceiling_log: "1 \<le> n \<Longrightarrow> int (clog2 n) = \<lceil>log 2 (real n)\<rceil>"
proof (induction n rule: clog2.induct)
  case (1 n)
  show ?case
  proof (cases "n \<le> 1")
    case True
    with 1(2) have "n = 1" by simp
    then show ?thesis by (simp add: clog2_small)
  next
    case False
    then have n2: "2 \<le> n" by simp
    have eq: "(n - 1) div 2 + 1 = (n + 1) div 2"
      using n2 by presburger
    have "int (clog2 ((n + 1) div 2)) = \<lceil>log 2 (real ((n + 1) div 2))\<rceil>"
      using 1(1) False n2 by simp
    moreover have "\<lceil>log 2 (real n)\<rceil> = \<lceil>log 2 (real ((n + 1) div 2))\<rceil> + 1"
      using ceiling_log2_div2 [OF n2] by (simp only: eq)
    moreover have "clog2 n = Suc (clog2 ((n + 1) div 2))"
      using False by (subst clog2.simps) simp
    ultimately show ?thesis
      by (simp only: of_nat_Suc)
  qed
qed


lemma upper_layers_single: "length xs \<le> 1 \<Longrightarrow> upper_layers H xs = []"
  by (subst upper_layers.simps) simp

lemma upper_layers_step:
  "1 < length xs \<Longrightarrow> upper_layers H xs = hash_pairs H xs # upper_layers H (hash_pairs H xs)"
  by (subst upper_layers.simps) (simp add: Let_def)

lemma computeMerkleRoot_step:
  "1 < length xs \<Longrightarrow> computeMerkleRoot H Z xs = computeMerkleRoot H Z (hash_pairs H xs)"
  by (subst computeMerkleRoot.simps) auto

text \<open>The last layer of a tree over a non-empty layer is the orchestrator's root.\<close>

lemma last_layer_computeMerkleRoot:
  "xs \<noteq> [] \<Longrightarrow> last (xs # upper_layers H xs) = [computeMerkleRoot H Z xs]"
proof (induction H xs rule: upper_layers.induct)
  case (1 H xs)
  show ?case
  proof (cases "1 < length xs")
    case False
    with 1(2) have len: "length xs = 1" by (cases xs) simp_all
    then obtain x where xs: "xs = [x]" by (cases xs) simp_all
    show ?thesis
      by (simp add: xs upper_layers_single computeMerkleRoot.simps [of H Z "[x]"])
  next
    case True
    then have ne: "hash_pairs H xs \<noteq> []"
      using length_hash_pairs [of H xs] by (cases "hash_pairs H xs") simp_all
    have "last (xs # upper_layers H xs) = last (hash_pairs H xs # upper_layers H (hash_pairs H xs))"
      by (simp add: upper_layers_step [OF True])
    also have "\<dots> = [computeMerkleRoot H Z (hash_pairs H xs)]"
      using 1(1) [OF True refl ne] .
    also have "computeMerkleRoot H Z (hash_pairs H xs) = computeMerkleRoot H Z xs"
      using computeMerkleRoot_step [OF True] by simp
    finally show ?thesis .
  qed
qed

text \<open>In a layer of \<open>2\<^sup>k\<close> entries every sibling exists, and the path hashes up to the root.\<close>

lemma proof_roundtrip_pow2:
  "length xs = 2 ^ k \<Longrightarrow> i < length xs \<Longrightarrow>
   verifyProof_loop H (xs ! i) (getProof_loop (xs # upper_layers H xs) i) (int i)
     = computeMerkleRoot H Z xs"
proof (induction k arbitrary: xs i)
  case 0
  then obtain x where xs: "xs = [x]" by (cases xs) simp_all
  with 0 show ?case
    by (simp add: upper_layers_single computeMerkleRoot.simps [of H Z "[x]"])
next
  case (Suc k)
  let ?next = "hash_pairs H xs"
  have len: "1 < length xs"
  proof -
    have "(1::nat) \<le> 2 ^ k" by simp
    then have "(1::nat) < 2 * 2 ^ k" by linarith
    with Suc.prems(1) show ?thesis by simp
  qed
  have lnext: "length ?next = 2 ^ k"
    using Suc.prems(1) by (simp add: length_hash_pairs)
  have i2: "i div 2 < length ?next"
    using Suc.prems lnext by simp
  have ev: "even (length xs)"
    using Suc.prems(1) by simp
  define sib where "sib = (if i mod 2 = 1 then i - 1 else i + 1)"
  have sib_lt: "sib < length xs"
  proof -
    from ev obtain b where "length xs = 2 * b" by (auto elim: evenE)
    with Suc.prems(2) show ?thesis unfolding sib_def by presburger
  qed
  have pair: "2 * (i div 2) + 1 < length xs"
  proof -
    from ev obtain b where "length xs = 2 * b" by (auto elim: evenE)
    with Suc.prems(2) show ?thesis by presburger
  qed
  have node: "(if int i mod 2 = 0 then H (xs ! i) (xs ! sib) else H (xs ! sib) (xs ! i))
              = ?next ! (i div 2)"
  proof (cases "i mod 2 = 1")
    case True
    then have "2 * (i div 2) + 1 = i" "2 * (i div 2) = i - 1" by presburger+
    moreover have "int i mod 2 \<noteq> 0" using True by presburger
    ultimately show ?thesis
      using hash_pairs_nth [OF pair, of H] True by (simp add: sib_def)
  next
    case False
    then have "2 * (i div 2) = i" "2 * (i div 2) + 1 = i + 1" by presburger+
    moreover have "int i mod 2 = 0" using False by presburger
    ultimately show ?thesis
      using hash_pairs_nth [OF pair, of H] False by (simp add: sib_def)
  qed
  have gp: "getProof_loop (xs # upper_layers H xs) i
            = xs ! sib # getProof_loop (?next # upper_layers H ?next) (i div 2)"
    using sib_lt by (simp add: upper_layers_step [OF len] sib_def Let_def)
  have "verifyProof_loop H (xs ! i) (getProof_loop (xs # upper_layers H xs) i) (int i)
        = verifyProof_loop H (?next ! (i div 2))
            (getProof_loop (?next # upper_layers H ?next) (i div 2)) (int (i div 2))"
    by (simp only: gp verifyProof_loop.simps node zdiv_int of_nat_numeral)
  also have "\<dots> = computeMerkleRoot H Z ?next"
    using Suc.IH [OF lnext i2] .
  also have "\<dots> = computeMerkleRoot H Z xs"
    using computeMerkleRoot_step [OF len] by simp
  finally show ?case .
qed


subsection \<open>Trees built with the default depth\<close>

lemma default_depth:
  "ls \<noteq> [] \<Longrightarrow> depth (new_MerkleTree H Z ls None) = Finite (max 1 (clog2 (length ls)))"
  by (simp add: new_MerkleTree_def buildTree_def Let_def Math_ceil_log2_def js_or_def max_def)

lemma default_layers:
  "layers (new_MerkleTree H Z ls None) =
     pad_layer Z (depth (new_MerkleTree H Z ls None)) ls
     # upper_layers H (pad_layer Z (depth (new_MerkleTree H Z ls None)) ls)"
  by (simp add: new_MerkleTree_def buildTree_def Let_def)

lemma default_leaves: "leaves (new_MerkleTree H Z ls d) = ls"
  by (simp add: new_MerkleTree_def buildTree_def Let_def)

lemma default_pad_length:
  assumes "ls \<noteq> []"
  shows "length (pad_layer Z (Finite (max 1 (clog2 (length ls)))) ls)
         = 2 ^ max 1 (clog2 (length ls))"
proof -
  have "length ls \<le> 2 ^ clog2 (length ls)" by (rule clog2_upper)
  also have "\<dots> \<le> (2::nat) ^ max 1 (clog2 (length ls))"
    by (rule power_increasing) simp_all
  finally show ?thesis by (simp add: pad_layer_def pow2_def)
qed

lemma default_root:
  assumes "ls \<noteq> []"
  shows "getRoot (new_MerkleTree H Z ls None) =
         Inr (Some (computeMerkleRoot H Z (pad_layer Z (Finite (max 1 (clog2 (length ls)))) ls)))"
proof -
  let ?pad = "pad_layer Z (Finite (max 1 (clog2 (length ls)))) ls"
  have ne: "?pad \<noteq> []" using assms by (simp add: pad_layer_def)
  have "layers (new_MerkleTree H Z ls None) = ?pad # upper_layers H ?pad"
    using default_layers [of H Z ls] by (simp add: default_depth [OF assms])
  then have "layers (new_MerkleTree H Z ls None) \<noteq> []"
    and "last (layers (new_MerkleTree H Z ls None)) = [computeMerkleRoot H Z ?pad]"
    using last_layer_computeMerkleRoot [OF ne, of H Z] by (simp_all only: list.distinct not_False_eq_True)
  then show ?thesis
    by (simp add: getRoot_def)
qed

text \<open>
  Layer 0 of a tree over a non-empty leaf list: the depth is \<open>\<lceil>log\<^sub>2 n\<rceil>\<close>, at least 1, and
  the leaves are padded on the right with \<open>Z\<close> to exactly \<open>2\<^sup>d\<close> entries.
\<close>

lemma default_leaf_layer:
  assumes "ls \<noteq> []"
  shows "depth (new_MerkleTree H Z ls None) = Finite (max 1 (clog2 (length ls)))
         \<and> int (max 1 (clog2 (length ls))) = max 1 \<lceil>log 2 (real (length ls))\<rceil>
         \<and> hd (layers (new_MerkleTree H Z ls None))
             = ls @ replicate (2 ^ max 1 (clog2 (length ls)) - length ls) Z
         \<and> length (hd (layers (new_MerkleTree H Z ls None))) = 2 ^ max 1 (clog2 (length ls))"
proof -
  have "1 \<le> length ls" using assms by (cases ls) simp_all
  then have "int (clog2 (length ls)) = \<lceil>log 2 (real (length ls))\<rceil>"
    by (rule clog2_ceiling_log)
  then have "max 1 \<lceil>log 2 (real (length ls))\<rceil> = max 1 (int (clog2 (length ls)))"
    by (simp only:)
  then have "int (max 1 (clog2 (length ls))) = max 1 \<lceil>log 2 (real (length ls))\<rceil>"
    by (simp add: max_def)
  moreover have "hd (layers (new_MerkleTree H Z ls None))
                 = pad_layer Z (Finite (max 1 (clog2 (length ls)))) ls"
    using default_layers [of H Z ls] by (simp add: default_depth [OF assms])
  ultimately show ?thesis
    using default_depth [OF assms, of H Z] default_pad_length [OF assms, of Z]
    by (simp add: pad_layer_def pow2_def)
qed

text \<open>
  C6.  The claim is about every leaf list.  For the empty list the constructor does not reach
  the minimum depth 1: \<^verbatim>\<open>Math.ceil(Math.log2(0))\<close> is \<^verbatim>\<open>-Infinity\<close>, which \<^verbatim>\<open>|| 1\<close> keeps,
  so the depth is \<^verbatim>\<open>-Infinity\<close>, the leaf layer stays empty (no padding to two entries) and
  \<open>getRoot\<close> yields \<^verbatim>\<open>undefined\<close>.  For non-empty lists the claim holds
  (\<open>default_leaf_layer\<close>).
\<close>

theorem MerkleTree_empty_leaves:
  "depth (new_MerkleTree H Z [] None) = NegInfinity
   \<and> layers (new_MerkleTree H Z [] None) = [[]]
   \<and> getRoot (new_MerkleTree H Z [] None) = Inr None"
  by (simp add: new_MerkleTree_def buildTree_def Let_def Math_ceil_log2_def js_or_def
                pad_layer_def pow2_def upper_layers_single getRoot_def)

text \<open>
  C5.  For every leaf list \<open>ls\<close> and every index \<open>i\<close> with \<open>0 \<le> i < length ls\<close>, in the tree
  built from \<open>ls\<close> with the default depth \<open>getProof i\<close> and \<open>getRoot\<close> return a proof and a
  root, and the static \<open>verifyProof\<close> accepts the leaf \<open>ls ! i\<close> with them at index \<open>i\<close>.
  This holds for every pair hash \<open>H\<close> and zero hash \<open>Z\<close>.
\<close>

theorem MerkleTree_proof_roundtrip:
  assumes "0 \<le> i" and "i < int (length ls)"
  shows "\<exists>prf rt. getProof (new_MerkleTree H Z ls None) i = Inr prf
                 \<and> getRoot (new_MerkleTree H Z ls None) = Inr (Some rt)
                 \<and> verifyProof H (ls ! nat i) prf rt i"
proof -
  from assms have ne: "ls \<noteq> []" by auto
  let ?t = "new_MerkleTree H Z ls None"
  let ?pad = "pad_layer Z (Finite (max 1 (clog2 (length ls)))) ls"
  have lay: "layers ?t = ?pad # upper_layers H ?pad"
    using default_layers [of H Z ls] by (simp add: default_depth [OF ne])
  have plen: "length ?pad = 2 ^ max 1 (clog2 (length ls))"
    by (rule default_pad_length [OF ne])
  have ilt: "nat i < length ls" using assms by simp
  then have ipad: "nat i < length ?pad" by (simp add: pad_layer_def)
  have leaf: "?pad ! nat i = ls ! nat i"
    using ilt by (simp add: pad_layer_def nth_append)
  have gp: "getProof ?t i = Inr (getProof_loop (?pad # upper_layers H ?pad) (nat i))"
    using assms by (simp add: getProof_def default_leaves lay)
  have "verifyProof_loop H (?pad ! nat i) (getProof_loop (?pad # upper_layers H ?pad) (nat i))
          (int (nat i)) = computeMerkleRoot H Z ?pad"
    by (rule proof_roundtrip_pow2 [OF plen ipad])
  moreover have "int (nat i) = i" using assms(1) by simp
  ultimately have "verifyProof H (ls ! nat i) (getProof_loop (?pad # upper_layers H ?pad) (nat i))
               (computeMerkleRoot H Z ?pad) i"
    unfolding verifyProof_def by (simp only: leaf)
  with gp default_root [OF ne, of H Z] show ?thesis by blast
qed

text \<open>
  C3, as amended.  For every leaf list whose length is a power of two greater than 1, the
  orchestrator's \<open>computeMerkleRoot\<close> equals the root of the tree built from the same leaves
  with the default depth (for such lists the tree adds no padding).  In general the root of
  the tree is the orchestrator's reduction of the padded leaf layer (\<open>default_root\<close>).
\<close>

theorem computeMerkleRoot_eq_tree_root_pow2:
  assumes "length ls = 2 ^ k" and "0 < k"
  shows "getRoot (new_MerkleTree H Z ls None) = Inr (Some (computeMerkleRoot H Z ls))"
proof -
  from assms(1) have ne: "ls \<noteq> []" by auto
  have "max 1 (clog2 (length ls)) = k"
    using assms by (simp add: clog2_pow2 max_def)
  then have "pad_layer Z (Finite (max 1 (clog2 (length ls)))) ls = ls"
    using assms(1) by (simp add: pad_layer_def pow2_def)
  with default_root [OF ne, of H Z] show ?thesis by simp
qed

text \<open>Witness for C3 as amended: two leaves under the ideal hash.\<close>

theorem computeMerkleRoot_eq_tree_root_pow2_witness:
  "length [Leaf 1, Leaf 2] = 2 ^ 1 \<and> (0::nat) < 1
   \<and> computeMerkleRoot Keccak ZeroHash [Leaf 1, Leaf 2] = Keccak (Leaf 1) (Leaf 2)
   \<and> getRoot (new_MerkleTree Keccak ZeroHash [Leaf 1, Leaf 2] None)
       = Inr (Some (Keccak (Leaf 1) (Leaf 2)))"
proof -
  have c: "computeMerkleRoot Keccak ZeroHash [Leaf 1, Leaf 2] = Keccak (Leaf 1) (Leaf 2)"
    by (simp add: computeMerkleRoot_step computeMerkleRoot.simps [of _ _ "[x]" for x])
  have "length [Leaf 1, Leaf 2] = 2 ^ 1" "(0::nat) < 1" by simp_all
  from computeMerkleRoot_eq_tree_root_pow2 [OF this, of Keccak ZeroHash] c show ?thesis
    by simp
qed

text \<open>
  C3, as stated, fails.  With a single leaf the orchestrator returns the leaf itself while the
  tree pads to two entries and returns the hash of the leaf with the zero hash; with three
  leaves the orchestrator pairs the third leaf with itself while the tree pairs it with the
  zero hash.  Under the ideal (collision-free) hash the roots differ.
\<close>

theorem computeMerkleRoot_neq_tree_root:
  "getRoot (new_MerkleTree Keccak ZeroHash [ZeroHash] None)
     \<noteq> Inr (Some (computeMerkleRoot Keccak ZeroHash [ZeroHash]))
   \<and> getRoot (new_MerkleTree Keccak ZeroHash [Leaf 1, Leaf 2, Leaf 3] None)
     \<noteq> Inr (Some (computeMerkleRoot Keccak ZeroHash [Leaf 1, Leaf 2, Leaf 3]))"
proof -
  have one: "computeMerkleRoot H Z [x] = x" for H :: "digest \<Rightarrow> digest \<Rightarrow> digest" and Z x
    by (subst computeMerkleRoot.simps) simp
  have a: "getRoot (new_MerkleTree Keccak ZeroHash [ZeroHash] None)
           = Inr (Some (Keccak ZeroHash ZeroHash))"
    using default_root [of "[ZeroHash]" Keccak ZeroHash]
    by (simp add: clog2_small clog2_small_Suc pad_layer_def pow2_def computeMerkleRoot_step one)
  have c3: "clog2 (Suc (Suc (Suc 0))) = 2" by (rule clog2_small_Suc)
  have b: "getRoot (new_MerkleTree Keccak ZeroHash [Leaf 1, Leaf 2, Leaf 3] None)
           = Inr (Some (Keccak (Keccak (Leaf 1) (Leaf 2)) (Keccak (Leaf 3) ZeroHash)))"
    using default_root [of "[Leaf 1, Leaf 2, Leaf 3]" Keccak ZeroHash]
    by (simp add: c3 pad_layer_def pow2_def computeMerkleRoot_step one)
  have c: "computeMerkleRoot Keccak ZeroHash [Leaf 1, Leaf 2, Leaf 3]
           = Keccak (Keccak (Leaf 1) (Leaf 2)) (Keccak (Leaf 3) (Leaf 3))"
    by (simp add: computeMerkleRoot_step one)
  show ?thesis unfolding a b c one by simp
qed

text \<open>Witness for C5: the third of three leaves under the ideal hash.\<close>

theorem MerkleTree_proof_roundtrip_witness:
  "(0::int) \<le> 2 \<and> (2::int) < int (length [Leaf 1, Leaf 2, Leaf 3])
   \<and> getProof (new_MerkleTree Keccak ZeroHash [Leaf 1, Leaf 2, Leaf 3] None) 2
       = Inr [ZeroHash, Keccak (Leaf 1) (Leaf 2)]
   \<and> verifyProof Keccak (Leaf 3) [ZeroHash, Keccak (Leaf 1) (Leaf 2)]
        (Keccak (Keccak (Leaf 1) (Leaf 2)) (Keccak (Leaf 3) ZeroHash)) 2"
proof -
  let ?t = "new_MerkleTree Keccak ZeroHash [Leaf 1, Leaf 2, Leaf 3] None"
  have h: "(0::int) \<le> 2" "(2::int) < int (length [Leaf 1, Leaf 2, Leaf 3])" by simp_all
  have one: "computeMerkleRoot H Z [x] = x" for H :: "digest \<Rightarrow> digest \<Rightarrow> digest" and Z x
    by (subst computeMerkleRoot.simps) simp
  have c3: "clog2 (Suc (Suc (Suc 0))) = 2" by (rule clog2_small_Suc)
  have rt: "getRoot ?t = Inr (Some (Keccak (Keccak (Leaf 1) (Leaf 2)) (Keccak (Leaf 3) ZeroHash)))"
    using default_root [of "[Leaf 1, Leaf 2, Leaf 3]" Keccak ZeroHash]
    by (simp add: c3 pad_layer_def pow2_def computeMerkleRoot_step one)
  have gp: "getProof ?t 2 = Inr [ZeroHash, Keccak (Leaf 1) (Leaf 2)]"
    by (simp add: getProof_def default_leaves default_layers default_depth c3 pad_layer_def
                  pow2_def upper_layers_step upper_layers_single Let_def numeral_2_eq_2)
  from MerkleTree_proof_roundtrip [OF h, of Keccak ZeroHash] rt gp h show ?thesis
    by simp
qed



end
